theory Spec2Isabelle
  imports Complex_Main "HOL-Library.Product_Lexorder" "HOL-Library.Multiset"
begin

section \<open>Python values and primitives used by dc\_chunker\<close>

text \<open>
  The module \<^verbatim>\<open>dc_chunker.py\<close> is embedded function by function. Floating-point numbers
  are modelled as exact reals, Python integers as \<^typ>\<open>int\<close>, lists and tuples as HOL lists,
  and every exception the code can raise is a value of the type \<open>error\<close>, returned on the
  left of a sum.
\<close>

datatype error = AssertionError | IndexError | ZeroDivisionError | ValueError | AttributeError

fun bind_err :: "error + 'a \<Rightarrow> ('a \<Rightarrow> error + 'b) \<Rightarrow> error + 'b" where
  "bind_err (Inl e) f = Inl e"
| "bind_err (Inr v) f = f v"

text \<open>Truth value of an optional sequence: \<^verbatim>\<open>None\<close> and the empty sequence are falsy.\<close>

definition truthy :: "'a list option \<Rightarrow> bool" where
  "truthy v = (case v of None \<Rightarrow> False | Some xs \<Rightarrow> xs \<noteq> [])"

text \<open>Subscription \<^verbatim>\<open>xs[i]\<close> at a non-negative literal index.\<close>

definition getitem :: "'a list \<Rightarrow> nat \<Rightarrow> error + 'a" where
  "getitem xs i = (if i < length xs then Inr (xs ! i) else Inl IndexError)"

text \<open>True division \<^verbatim>\<open>a / b\<close> raises on a zero divisor, for floats as for integers.\<close>

definition true_div :: "real \<Rightarrow> real \<Rightarrow> error + real" where
  "true_div a b = (if b = 0 then Inl ZeroDivisionError else Inr (a / b))"

text \<open>\<^verbatim>\<open>range(n)\<close>, and \<^verbatim>\<open>range(start, stop, step)\<close> with its loops in both directions.\<close>

definition py_range :: "int \<Rightarrow> int list" where
  "py_range n = map int [0..<nat n]"

function range_up :: "int \<Rightarrow> int \<Rightarrow> int \<Rightarrow> int list" where
  "range_up i stop step = (if 0 < step \<and> i < stop then i # range_up (i + step) stop step else [])"
  by pat_completeness auto
termination
  by (relation "measure (\<lambda>(i, stop, step). nat (stop - i))") auto

function range_down :: "int \<Rightarrow> int \<Rightarrow> int \<Rightarrow> int list" where
  "range_down i stop step = (if step < 0 \<and> stop < i then i # range_down (i + step) stop step else [])"
  by pat_completeness auto
termination
  by (relation "measure (\<lambda>(i, stop, step). nat (i - stop))") auto

declare range_up.simps [simp del] range_down.simps [simp del]

definition py_range3 :: "int \<Rightarrow> int \<Rightarrow> int \<Rightarrow> error + int list" where
  "py_range3 start stop step =
     (if step = 0 then Inl ValueError
      else if 0 < step then Inr (range_up start stop step)
      else Inr (range_down start stop step))"

text \<open>
  Slicing \<^verbatim>\<open>xs[start:stop]\<close>: a negative bound counts from the end, and both bounds are
  clamped to the length.
\<close>

definition slice_bound :: "nat \<Rightarrow> int \<Rightarrow> nat" where
  "slice_bound len i = (if i < 0 then nat (max 0 (int len + i)) else min len (nat i))"

definition py_slice :: "'a list \<Rightarrow> int \<Rightarrow> int \<Rightarrow> 'a list" where
  "py_slice xs start stop =
     (let lo = slice_bound (length xs) start; hi = slice_bound (length xs) stop
      in take (hi - lo) (drop lo xs))"

text \<open>
  The builtin \<^verbatim>\<open>sorted(xs, reverse=r)\<close>. The sort is stable; with \<^verbatim>\<open>reverse=True\<close> CPython
  reverses the list, sorts it, and reverses the result.
\<close>

definition sorted_py :: "'a::linorder list \<Rightarrow> bool \<Rightarrow> 'a list" where
  "sorted_py xs reverse = (if reverse then rev (sort (rev xs)) else sort xs)"

text \<open>
  A \<^verbatim>\<open>dict\<close> keeps its keys in insertion order; storing under a key that is present
  replaces the value where it stands. \<^verbatim>\<open>dict(pairs)\<close> stores the pairs one after another.
\<close>

fun dict_setitem :: "'k \<Rightarrow> 'v \<Rightarrow> ('k \<times> 'v) list \<Rightarrow> ('k \<times> 'v) list" where
  "dict_setitem k v [] = [(k, v)]"
| "dict_setitem k v (e # d) = (if fst e = k then (k, v) # d else e # dict_setitem k v d)"

definition dict_py :: "('k \<times> 'v) list \<Rightarrow> ('k \<times> 'v) list" where
  "dict_py items = foldl (\<lambda>d (k, v). dict_setitem k v d) [] items"

section \<open>Data model\<close>

text \<open>
  A chunk descriptor is the dictionary \<^verbatim>\<open>{'longitude': ..., 'latitude': ...}\<close>: the longitude
  value is whatever sequence the caller passed, the latitude value a pair of bounds.
\<close>

record chunk =
  longitude :: "real list"
  latitude :: "real \<times> real"

text \<open>
  A naive \<^verbatim>\<open>datetime\<close> is its fields (year, month, day, hour, minute, second, microsecond);
  Python compares two of them field by field in this order, which is the lexicographic
  order of the tuple.
\<close>

type_synonym datetime = "int \<times> int \<times> int \<times> int \<times> int \<times> int \<times> int"

definition year :: "datetime \<Rightarrow> int" where "year d = fst d"
definition month :: "datetime \<Rightarrow> int" where "month d = fst (snd d)"

text \<open>
  \<^verbatim>\<open>_generate_baseline\<close> returns either its argument or a list holding the list of
  windows; the two shapes are kept apart.
\<close>

datatype 'a baseline = Unchanged "'a list" | Windows "'a list list list"

text \<open>
  A gridded dataset is opaque except for its coordinate axes; \<^verbatim>\<open>'time' in ds\<close> holds when
  the time axis is there. The values handed to \<^verbatim>\<open>reindex\<close> are Python objects: a list of
  labels, or a tuple of objects.
\<close>

datatype pyobj = FloatList "real list" | TimeList "int list" | Tuple "pyobj list"

record 'v dataset =
  latitude_values :: "real list"
  longitude_values :: "real list"
  time_values :: "int list option"
  data_vars :: 'v

section \<open>itertools.groupby\<close>

text \<open>
  \<^verbatim>\<open>groupby(iterable, key)\<close> is an iterator with state, and each group it hands out is an
  iterator over the same state. The model follows CPython's implementation: the fields of
  the groupby object, \<^verbatim>\<open>groupby_step\<close> (fetch one element), \<^verbatim>\<open>groupby_next\<close> (skip the rest
  of the current group, then start the next one) and \<^verbatim>\<open>_grouper_next\<close> (read one element
  of a group). Group objects are told apart by the order in which they were created.
\<close>

record ('a, 'k) groupby =
  it :: "'a list"
  tgtkey :: "'k option"
  currkey :: "'k option"
  currvalue :: "'a option"
  currgrouper :: "nat option"
  allocated :: nat

record 'k grouper =
  ident :: nat
  grouper_tgtkey :: 'k

definition groupby_new :: "'a list \<Rightarrow> ('a, 'k) groupby" where
  "groupby_new iterable =
     \<lparr>it = iterable, tgtkey = None, currkey = None, currvalue = None,
      currgrouper = None, allocated = 0\<rparr>"

definition groupby_step :: "('a \<Rightarrow> 'k) \<Rightarrow> ('a, 'k) groupby \<Rightarrow> ('a, 'k) groupby option" where
  "groupby_step keyfunc gbo =
     (case it gbo of
        [] \<Rightarrow> None
      | newvalue # rest \<Rightarrow>
          Some (gbo\<lparr>it := rest, currkey := Some (keyfunc newvalue), currvalue := Some newvalue\<rparr>))"

text \<open>The loop of \<^verbatim>\<open>groupby_next\<close> that skips to the first element of the next group.\<close>

function groupby_skip :: "('a \<Rightarrow> 'k) \<Rightarrow> ('a, 'k) groupby \<Rightarrow> ('a, 'k) groupby \<times> bool" where
  "groupby_skip keyfunc gbo =
     (if currkey gbo \<noteq> None \<and> (tgtkey gbo = None \<or> tgtkey gbo \<noteq> currkey gbo) then (gbo, True)
      else case groupby_step keyfunc gbo of
             None \<Rightarrow> (gbo, False)
           | Some gbo' \<Rightarrow> groupby_skip keyfunc gbo')"
  by pat_completeness auto
termination
  by (relation "measure (\<lambda>(keyfunc, gbo). length (it gbo))")
     (auto simp: groupby_step_def split: list.splits)

declare groupby_skip.simps [simp del]

definition groupby_next ::
  "('a \<Rightarrow> 'k) \<Rightarrow> ('a, 'k) groupby \<Rightarrow> ('a, 'k) groupby \<times> ('k \<times> 'k grouper) option" where
  "groupby_next keyfunc gbo =
     (case groupby_skip keyfunc (gbo\<lparr>currgrouper := None\<rparr>) of
        (gbo', False) \<Rightarrow> (gbo', None)
      | (gbo', True) \<Rightarrow>
          (case currkey gbo' of
             None \<Rightarrow> (gbo', None)
           | Some k \<Rightarrow>
               let g = \<lparr>ident = allocated gbo', grouper_tgtkey = k\<rparr> in
               (gbo'\<lparr>tgtkey := Some k, currgrouper := Some (ident g),
                     allocated := Suc (allocated gbo')\<rparr>,
                Some (k, g))))"

definition grouper_next ::
  "('a \<Rightarrow> 'k) \<Rightarrow> 'k grouper \<Rightarrow> ('a, 'k) groupby \<Rightarrow> ('a, 'k) groupby \<times> 'a option" where
  "grouper_next keyfunc igo gbo =
     (if currgrouper gbo \<noteq> Some (ident igo) then (gbo, None)
      else case (if currvalue gbo = None then groupby_step keyfunc gbo else Some gbo) of
             None \<Rightarrow> (gbo, None)
           | Some gbo' \<Rightarrow>
               if currkey gbo' \<noteq> Some (grouper_tgtkey igo) then (gbo', None)
               else (gbo'\<lparr>currvalue := None, currkey := None\<rparr>, currvalue gbo'))"

text \<open>
  Draining the iterator, as the \<^verbatim>\<open>dict\<close> constructor does: every item until
  \<^verbatim>\<open>StopIteration\<close>, and the state the groupby object is left in. The measure counts the
  elements not yet fetched, twice, plus one while a fetched element waits for its group.
\<close>

definition pending :: "('a, 'k) groupby \<Rightarrow> nat" where
  "pending gbo =
     2 * length (it gbo) + (if currkey gbo \<noteq> None \<and> tgtkey gbo \<noteq> currkey gbo then 1 else 0)"

function groupby_items ::
  "('a \<Rightarrow> 'k) \<Rightarrow> ('a, 'k) groupby \<Rightarrow> ('k \<times> 'k grouper) list \<times> ('a, 'k) groupby" where
  "groupby_items keyfunc gbo =
     (case groupby_next keyfunc gbo of
        (gbo', None) \<Rightarrow> ([], gbo')
      | (gbo', Some item) \<Rightarrow>
          (case groupby_items keyfunc gbo' of (items, final) \<Rightarrow> (item # items, final)))"
  by pat_completeness auto
termination
proof (relation "measure (\<lambda>(keyfunc, gbo). pending gbo)", goal_cases)
  case 1
  show ?case by simp
next
  case (2 keyfunc gbo gbo' y item)
  have skip: "groupby_skip keyfunc g = (g', True) \<Longrightarrow>
      currkey g' \<noteq> None \<and> tgtkey g' = tgtkey g \<and>
      (g' = g \<and> tgtkey g \<noteq> currkey g \<or> length (it g') < length (it g))"
    for g g' :: "('a, 'b) groupby"
  proof (induction keyfunc g rule: groupby_skip.induct)
    case (1 keyfunc g)
    show ?case
    proof (cases "currkey g \<noteq> None \<and> (tgtkey g = None \<or> tgtkey g \<noteq> currkey g)")
      case True
      with "1.prems" show ?thesis by (auto simp: groupby_skip.simps[of keyfunc g])
    next
      case False
      have "groupby_skip keyfunc g =
          (case groupby_step keyfunc g of None \<Rightarrow> (g, False) | Some g1 \<Rightarrow> groupby_skip keyfunc g1)"
        by (subst groupby_skip.simps) (simp only: False if_False)
      with "1.prems" obtain g1 where s: "groupby_step keyfunc g = Some g1"
        and r: "groupby_skip keyfunc g1 = (g', True)"
        by (auto split: option.splits)
      from s have l: "length (it g1) < length (it g)" "tgtkey g1 = tgtkey g"
        by (auto simp: groupby_step_def split: list.splits)
      from "1.IH"[OF False s r] l show ?thesis by auto
    qed
  qed
  from 2 have "groupby_next keyfunc gbo = (gbo', Some item)" by simp
  then obtain g1 k where
      s: "groupby_skip keyfunc (gbo\<lparr>currgrouper := None\<rparr>) = (g1, True)"
      and k: "currkey g1 = Some k"
      and g': "gbo' = g1\<lparr>tgtkey := Some k, currgrouper := Some (allocated g1), allocated := Suc (allocated g1)\<rparr>"
    by (auto simp: groupby_next_def Let_def split: prod.splits bool.splits option.splits)
  from skip[OF s] k g' have "pending gbo' < pending gbo"
    by (auto simp: pending_def)
  then show ?case by simp
qed

declare groupby_items.simps [simp del]

section \<open>The functions of the module\<close>

subsection \<open>create\_geographic\_chunks\<close>

definition create_geographic_chunks ::
  "real list option \<Rightarrow> real list option \<Rightarrow> real \<Rightarrow> error + chunk list" where
  "create_geographic_chunks longitude_arg latitude_arg geographic_chunk_size =
    (if \<not> (truthy latitude_arg \<and> truthy longitude_arg) then Inl AssertionError
     else case (latitude_arg, longitude_arg) of
       (Some lat, Some lon) \<Rightarrow>
       bind_err (getitem lat 1) (\<lambda>lat1.
       bind_err (getitem lat 0) (\<lambda>lat0.
       bind_err (getitem lon 1) (\<lambda>lon1.
       bind_err (getitem lon 0) (\<lambda>lon0.
       let square_area = (lat1 - lat0) * (lon1 - lon0) in
       bind_err (true_div square_area geographic_chunk_size) (\<lambda>q.
       let geographic_chunks = \<lceil>q\<rceil> in
       bind_err (true_div (lat1 - lat0) (of_int geographic_chunks)) (\<lambda>latitude_chunk_size.
       let latitude_ranges =
             map (\<lambda>chunk_number.
                    (lat0 + latitude_chunk_size * of_int chunk_number,
                     lat0 + latitude_chunk_size * of_int (chunk_number + 1)))
                 (py_range geographic_chunks);
           longitude_ranges = map (\<lambda>_. lon) latitude_ranges
       in Inr (map (\<lambda>pair. \<lparr>longitude = fst pair, latitude = snd pair\<rparr>)
                   (zip longitude_ranges latitude_ranges))))))))
     | _ \<Rightarrow> Inl AssertionError)"

text \<open>The closed latitude band of a descriptor, and its interior.\<close>

definition band :: "chunk \<Rightarrow> real set" where
  "band c = {fst (latitude c) .. snd (latitude c)}"

definition band_interior :: "chunk \<Rightarrow> real set" where
  "band_interior c = {fst (latitude c) <..< snd (latitude c)}"

subsection \<open>combine\_geographic\_chunks\<close>

text \<open>
  The two xarray methods the function calls, \<^verbatim>\<open>combine_first\<close> and \<^verbatim>\<open>reindex\<close>, are
  parameters. The last line of the \<^verbatim>\<open>if\<close> ends in a comma, so the value stored under
  \<^verbatim>\<open>'time'\<close> is a tuple holding the sorted list. With no chunk at all,
  \<^verbatim>\<open>combined_chunks\<close> is still \<^verbatim>\<open>None\<close> when its latitude is read.
\<close>

definition combine_geographic_chunks ::
  "('v dataset \<Rightarrow> 'v dataset \<Rightarrow> 'v dataset) \<Rightarrow> ('v dataset \<Rightarrow> (string \<times> pyobj) list \<Rightarrow> 'r) \<Rightarrow>
   'v dataset list \<Rightarrow> error + 'r" where
  "combine_geographic_chunks combine_first reindex chunks =
     (case foldl (\<lambda>combined_chunks chunk.
                    case combined_chunks of
                      None \<Rightarrow> Some chunk
                    | Some combined \<Rightarrow> Some (combine_first combined chunk))
                 None chunks of
        None \<Rightarrow> Inl AttributeError
      | Some combined_chunks \<Rightarrow>
          let indices = [(''latitude'', FloatList (sorted_py (latitude_values combined_chunks) True)),
                         (''longitude'', FloatList (sorted_py (longitude_values combined_chunks) False))];
              indices = (case time_values combined_chunks of
                           None \<Rightarrow> indices
                         | Some time_labels \<Rightarrow>
                             dict_setitem ''time'' (Tuple [TimeList (sorted_py time_labels False)]) indices)
          in Inr (reindex combined_chunks indices))"

subsection \<open>create\_time\_chunks and \_chunk\_iterable\<close>

definition chunk_iterable :: "'a list \<Rightarrow> int \<Rightarrow> error + 'a list list" where
  "chunk_iterable iterable chunk_size =
     bind_err (py_range3 0 (int (length iterable)) chunk_size) (\<lambda>indices.
       Inr (map (\<lambda>index. py_slice iterable index (index + chunk_size)) indices))"

definition create_time_chunks :: "'a::linorder list \<Rightarrow> bool \<Rightarrow> int option \<Rightarrow> error + 'a list list" where
  "create_time_chunks datetime_list reversed time_chunk_size =
     (let datetimes_sorted = sorted_py datetime_list reversed in
      case time_chunk_size of
        None \<Rightarrow> Inr [datetimes_sorted]
      | Some n \<Rightarrow> chunk_iterable datetimes_sorted n)"

subsection \<open>group\_datetimes\_by\_year and group\_datetimes\_by\_month\<close>

text \<open>
  Both return \<^verbatim>\<open>dict(groupby(...))\<close>: a dictionary from keys to group objects, all reading
  from the one groupby object, whose final state is kept beside the entries.
  \<^verbatim>\<open>filter\<close> is lazy and its result is never read.
\<close>

record ('a, 'k) grouping =
  entries :: "('k \<times> 'k grouper) list"
  parent :: "('a, 'k) groupby"

definition dict_groupby :: "('a \<Rightarrow> 'k) \<Rightarrow> 'a list \<Rightarrow> ('a, 'k) grouping" where
  "dict_groupby keyfunc iterable =
     (case groupby_items keyfunc (groupby_new iterable) of
        (items, final) \<Rightarrow> \<lparr>entries = dict_py items, parent = final\<rparr>)"

definition group_datetimes_by_year :: "datetime list \<Rightarrow> (datetime, int) grouping" where
  "group_datetimes_by_year datetime_list = dict_groupby year datetime_list"

definition group_datetimes_by_month :: "datetime list \<Rightarrow> int list \<Rightarrow> (datetime, int) grouping" where
  "group_datetimes_by_month datetime_list months =
     (let month_filtered = filter (\<lambda>x. month x \<in> set months) datetime_list
      in dict_groupby month datetime_list)"

subsection \<open>\_generate\_baseline\<close>

definition generate_baseline :: "'a list \<Rightarrow> int \<Rightarrow> 'a baseline" where
  "generate_baseline iterable window_length =
     (if int (length iterable) \<le> window_length then Unchanged iterable
      else let num_windows = int (length iterable) - window_length - 1 in
        Windows [map (\<lambda>window. py_slice iterable window (window + window_length))
                     (py_range num_windows)])"

section \<open>Notions used in the statements\<close>

text \<open>
  The keys that \<^verbatim>\<open>groupby_next\<close> has still to hand out from a state; the keys of the
  adjacent runs of a list; and the position of the last run of a key.
\<close>

definition upcoming :: "('a \<Rightarrow> 'k) \<Rightarrow> ('a, 'k) groupby \<Rightarrow> 'k list" where
  "upcoming keyfunc gbo =
     (let ahead = (case currkey gbo of None \<Rightarrow> [] | Some k \<Rightarrow> [k]) @ map keyfunc (it gbo)
      in case tgtkey gbo of None \<Rightarrow> ahead | Some t \<Rightarrow> dropWhile (\<lambda>k. k = t) ahead)"

definition run_keys :: "('a \<Rightarrow> 'k) \<Rightarrow> 'a list \<Rightarrow> 'k list" where
  "run_keys keyfunc xs = remdups_adj (map keyfunc xs)"

definition last_run :: "('a \<Rightarrow> 'k) \<Rightarrow> 'a list \<Rightarrow> 'k \<Rightarrow> nat \<Rightarrow> bool" where
  "last_run keyfunc xs k i \<longleftrightarrow>
     i < length (run_keys keyfunc xs) \<and> run_keys keyfunc xs ! i = k \<and>
     (\<forall>j<length (run_keys keyfunc xs). i < j \<longrightarrow> run_keys keyfunc xs ! j \<noteq> k)"

text \<open>
  The contract as the specification words it: one group for each adjacent run, so that a
  key occurring in two non-adjacent runs has two groups.
\<close>

definition separate_group_per_run :: "('a \<Rightarrow> 'k) \<Rightarrow> 'a list \<Rightarrow> ('a, 'k) grouping \<Rightarrow> bool" where
  "separate_group_per_run keyfunc xs r \<longleftrightarrow> map fst (entries r) = run_keys keyfunc xs"

text \<open>
  The offsets at which a full-length window exists: the positions \<open>0, \<dots>, L\<close> of the
  sequence where the slice of width \<open>W\<close> has length \<open>W\<close>.
\<close>

definition full_length_offsets :: "'a list \<Rightarrow> int \<Rightarrow> nat list" where
  "full_length_offsets xs W =
     filter (\<lambda>i. int (length (py_slice xs (int i) (int i + W))) = W) [0..<Suc (length xs)]"

text \<open>
  The count as the specification words it: one fewer window than the maximum number of
  valid full-length windows.
\<close>

definition one_fewer_than_maximum :: "'a list \<Rightarrow> int \<Rightarrow> 'a baseline \<Rightarrow> bool" where
  "one_fewer_than_maximum xs W r =
     (case r of
        Windows [windows] \<Rightarrow> Suc (length windows) = length (full_length_offsets xs W)
      | _ \<Rightarrow> False)"

section \<open>Geographic chunking\<close>

lemma create_geographic_chunks_explicit:
  assumes "2 \<le> length lat" and "2 \<le> length lon" and "target \<noteq> 0"
    and "n = \<lceil>(lat ! 1 - lat ! 0) * (lon ! 1 - lon ! 0) / target\<rceil>" and "n \<noteq> 0"
  shows "create_geographic_chunks (Some lon) (Some lat) target =
    Inr (map (\<lambda>i. \<lparr>longitude = lon,
                    latitude = (lat ! 0 + (lat ! 1 - lat ! 0) / of_int n * real i,
                                lat ! 0 + (lat ! 1 - lat ! 0) / of_int n * (real i + 1))\<rparr>)
             [0..<nat n])"
proof -
  from assms(1,2) have ne: "lat \<noteq> []" "lon \<noteq> []" by auto
  show ?thesis
    using assms ne
    by (simp add: create_geographic_chunks_def truthy_def getitem_def true_div_def
        py_range_def Let_def zip_map_map comp_def zip_same_conv_map)
qed

lemma bands_union_up:
  fixes a w :: real
  assumes "0 \<le> w"
  shows "(\<Union>i<Suc n. {a + w * real i .. a + w * (real i + 1)}) = {a .. a + w * real (Suc n)}"
proof (induction n)
  case 0
  show ?case by (simp add: lessThan_Suc)
next
  case (Suc n)
  have "(\<Union>i<Suc (Suc n). {a + w * real i .. a + w * (real i + 1)}) =
        (\<Union>i<Suc n. {a + w * real i .. a + w * (real i + 1)}) \<union> {a + w * real (Suc n) .. a + w * (real (Suc n) + 1)}"
    by (simp add: lessThan_Suc Un_commute)
  also have "\<dots> = {a .. a + w * real (Suc n)} \<union> {a + w * real (Suc n) .. a + w * (real (Suc n) + 1)}"
    using Suc.IH by simp
  also have "\<dots> = {a .. a + w * (real (Suc n) + 1)}"
  proof (rule ivl_disj_un_two_touch(4))
    show "a \<le> a + w * real (Suc n)" using assms by simp
    show "a + w * real (Suc n) \<le> a + w * (real (Suc n) + 1)" using assms by (simp add: algebra_simps)
  qed
  finally show ?case by (simp add: algebra_simps)
qed

lemma bands_union_down:
  fixes a w :: real
  assumes "w < 0"
  shows "(\<Union>i<n. {a + w * real i .. a + w * (real i + 1)}) = {}"
  using assms by (auto simp: algebra_simps)

lemma bands_interiors_disjoint:
  fixes a w :: real
  assumes "i \<noteq> j"
  shows "{a + w * real i <..< a + w * (real i + 1)} \<inter> {a + w * real j <..< a + w * (real j + 1)} = {}"
proof (cases "0 \<le> w")
  case False
  then show ?thesis by (auto simp: algebra_simps)
next
  case True
  have key: "{a + w * real p <..< a + w * (real p + 1)} \<inter> {a + w * real q <..< a + w * (real q + 1)} = {}"
    if "p < q" for p q :: nat
  proof -
    from that have "real p + 1 \<le> real q" by simp
    then have "w * (real p + 1) \<le> w * real q" using True by (rule mult_left_mono)
    then show ?thesis by auto
  qed
  from assms consider "i < j" | "j < i" by linarith
  then show ?thesis
  proof cases
    case 1 then show ?thesis by (rule key)
  next
    case 2 then show ?thesis using key[of j i] by (simp add: Int_commute)
  qed
qed

lemma bind_err_Inr:
  "bind_err m f = Inr y \<longleftrightarrow> (\<exists>x. m = Inr x \<and> f x = Inr y)"
  by (cases m) auto

text \<open>
  Claim C1. For latitude and longitude ranges of positive area and a positive target area,
  \<open>create_geographic_chunks\<close> returns exactly \<open>\<lceil>area / target_area\<rceil>\<close> descriptors, at least
  one; band \<open>i\<close> is \<open>[lat0 + i * band_width, lat0 + (i + 1) * band_width]\<close> with
  \<open>band_width = (lat1 - lat0) / count\<close>; the first band starts at \<open>lat0\<close>, the last ends at
  \<open>lat1\<close>, each band ends where the next starts, the interiors of different bands are
  disjoint, and the union of the bands is the interval \<open>[lat0, lat1]\<close>. Numbers are exact
  reals, so rounding is left aside as the claim says.
\<close>

theorem create_geographic_chunks_partition:
  fixes lat0 lat1 lon0 lon1 target_area :: real
  assumes area: "0 < (lat1 - lat0) * (lon1 - lon0)" and target: "0 < target_area"
  shows "\<exists>chunks.
      create_geographic_chunks (Some [lon0, lon1]) (Some [lat0, lat1]) target_area = Inr chunks
    \<and> int (length chunks) = \<lceil>(lat1 - lat0) * (lon1 - lon0) / target_area\<rceil>
    \<and> 1 \<le> length chunks
    \<and> (\<forall>i<length chunks. latitude (chunks ! i) =
          (lat0 + (lat1 - lat0) / real (length chunks) * real i,
           lat0 + (lat1 - lat0) / real (length chunks) * (real i + 1)))
    \<and> fst (latitude (hd chunks)) = lat0
    \<and> snd (latitude (last chunks)) = lat1
    \<and> (\<forall>i. Suc i < length chunks \<longrightarrow>
          snd (latitude (chunks ! i)) = fst (latitude (chunks ! Suc i)))
    \<and> (\<forall>i<length chunks. \<forall>j<length chunks. i \<noteq> j \<longrightarrow>
          band_interior (chunks ! i) \<inter> band_interior (chunks ! j) = {})
    \<and> (\<Union>i<length chunks. band (chunks ! i)) = {lat0 .. lat1}"
proof -
  define n where "n = \<lceil>(lat1 - lat0) * (lon1 - lon0) / target_area\<rceil>"
  define w where "w = (lat1 - lat0) / of_int n"
  define chunks where "chunks = map (\<lambda>i. \<lparr>longitude = [lon0, lon1],
      latitude = (lat0 + w * real i, lat0 + w * (real i + 1))\<rparr>) [0..<nat n]"
  have q: "0 < (lat1 - lat0) * (lon1 - lon0) / target_area" using area target by simp
  then have npos: "0 < n" unfolding n_def by simp
  have len: "length chunks = nat n" by (simp add: chunks_def)
  have rn: "real (nat n) = of_int n" using npos by simp
  have res: "create_geographic_chunks (Some [lon0, lon1]) (Some [lat0, lat1]) target_area = Inr chunks"
  proof -
    have "n \<noteq> 0" "target_area \<noteq> 0" using npos target by simp_all
    then show ?thesis
      using create_geographic_chunks_explicit[of "[lat0, lat1]" "[lon0, lon1]" target_area n]
      unfolding chunks_def w_def by (simp add: n_def)
  qed
  have nth: "latitude (chunks ! i) = (lat0 + w * real i, lat0 + w * (real i + 1))" if "i < nat n" for i
    using that by (simp add: chunks_def)
  have wn: "w * of_int n = lat1 - lat0" using npos by (simp add: w_def)
  have ne: "chunks \<noteq> []" using npos len by auto
  have c1: "int (length chunks) = n" using len npos by simp
  have c2: "1 \<le> length chunks" using len npos by simp
  have c3: "\<forall>i<length chunks. latitude (chunks ! i) =
          (lat0 + (lat1 - lat0) / real (length chunks) * real i,
           lat0 + (lat1 - lat0) / real (length chunks) * (real i + 1))"
    using nth by (simp add: len rn w_def)
  have c4: "fst (latitude (hd chunks)) = lat0"
    using nth[of 0] npos ne by (simp add: hd_conv_nth)
  have "snd (latitude (last chunks)) = lat0 + w * (real (nat n - 1) + 1)"
    using nth[of "nat n - 1"] npos ne by (simp add: last_conv_nth len)
  also have "real (nat n - 1) + 1 = of_int n" using npos by simp
  finally have c5: "snd (latitude (last chunks)) = lat1" using wn by simp
  have c6: "\<forall>i. Suc i < length chunks \<longrightarrow> snd (latitude (chunks ! i)) = fst (latitude (chunks ! Suc i))"
    using nth by (simp add: len)
  have c7: "\<forall>i<length chunks. \<forall>j<length chunks. i \<noteq> j \<longrightarrow>
          band_interior (chunks ! i) \<inter> band_interior (chunks ! j) = {}"
    using nth bands_interiors_disjoint[where a = lat0 and w = w] by (simp add: len band_interior_def)
  have "(\<Union>i<length chunks. band (chunks ! i)) = (\<Union>i<nat n. {lat0 + w * real i .. lat0 + w * (real i + 1)})"
    using nth by (simp add: len band_def)
  also have "\<dots> = {lat0 .. lat1}"
  proof (cases "0 \<le> w")
    case True
    obtain m where m: "nat n = Suc m" using npos by (cases "nat n") auto
    have "lat0 + w * real (Suc m) = lat1" using wn rn m by simp
    with bands_union_up[OF True, where n = m and a = lat0] show ?thesis unfolding m by simp
  next
    case False
    then have "w < 0" by simp
    moreover from this have "lat1 < lat0" using wn npos
      by (metis diff_less_0_iff_less mult_neg_pos of_int_0_less_iff)
    ultimately show ?thesis using bands_union_down[where w = w and n = "nat n" and a = lat0] by simp
  qed
  finally have c8: "(\<Union>i<length chunks. band (chunks ! i)) = {lat0 .. lat1}" .
  from res c1 c2 c3 c4 c5 c6 c7 c8 show ?thesis unfolding n_def by blast
qed

text \<open>Claim C1 at the box \<open>[0, 1] \<times> [10, 12]\<close> with target area \<open>3/2\<close>: two bands.\<close>

theorem create_geographic_chunks_partition_witness:
  "0 < ((1::real) - 0) * (12 - 10) \<and> (0::real) < 3 / 2 \<and> (\<exists>chunks.
      create_geographic_chunks (Some [10, 12]) (Some [0, 1]) (3 / 2) = Inr chunks
    \<and> length chunks = 2
    \<and> (\<Union>i<length chunks. band (chunks ! i)) = {0 .. 1})"
  using create_geographic_chunks_partition
    [where ?lat0.0 = 0 and ?lat1.0 = 1 and ?lon0.0 = 10 and ?lon1.0 = 12 and target_area = "3 / 2"]
  by auto

text \<open>
  Claim C3. A box of zero area is not tolerated: the chunk count is \<open>\<lceil>0 / size\<rceil> = 0\<close> and the
  band width divides by it, so the call raises \<open>ZeroDivisionError\<close>. A box of negative area
  whose quotient is at most \<open>-1\<close> gives a negative count and an empty list of descriptors.
\<close>

theorem create_geographic_chunks_zero_area:
  "create_geographic_chunks (Some [10, 20]) (Some [0, 0]) (1 / 2) = Inl ZeroDivisionError
   \<and> create_geographic_chunks (Some [10, 20]) (Some [1, 0]) (1 / 2) = Inr []"
  by (simp add: create_geographic_chunks_def truthy_def getitem_def true_div_def py_range_def)

text \<open>
  Claim C8. Every descriptor returned by \<open>create_geographic_chunks\<close> carries the longitude
  argument itself, unchanged, so all descriptors carry the same longitude.
\<close>

theorem create_geographic_chunks_longitude_unchanged:
  assumes "create_geographic_chunks longitude_arg latitude_arg geographic_chunk_size = Inr chunks"
    and "c \<in> set chunks"
  shows "longitude_arg = Some (longitude c)"
proof -
  from assms(1) obtain lon lat where args: "longitude_arg = Some lon" "latitude_arg = Some lat"
    by (cases longitude_arg; cases latitude_arg)
       (auto simp: create_geographic_chunks_def truthy_def split: if_splits)
  from assms(1) have "\<forall>c\<in>set chunks. longitude c = lon"
    unfolding args create_geographic_chunks_def
    by (auto simp: bind_err_Inr Let_def split: if_splits dest!: set_zip_leftD)
  with assms(2) have "longitude c = lon" by simp
  with args show ?thesis by simp
qed

text \<open>Claim C8 at the same box: the second descriptor carries \<open>[10, 12]\<close>.\<close>

theorem create_geographic_chunks_longitude_unchanged_witness:
  "create_geographic_chunks (Some [10, 12]) (Some [0, 1]) (3 / 2) =
     Inr [\<lparr>longitude = [10, 12], latitude = (0, 1 / 2)\<rparr>, \<lparr>longitude = [10, 12], latitude = (1 / 2, 1)\<rparr>]
   \<and> \<lparr>longitude = [10, 12], latitude = (1 / 2, 1)\<rparr> \<in>
       set [\<lparr>longitude = [10, 12], latitude = (0, 1 / 2)\<rparr>, \<lparr>longitude = [10, 12], latitude = (1 / 2, 1)\<rparr>]
   \<and> Some [10, 12] = Some (longitude \<lparr>longitude = [10, 12], latitude = (1 / 2, 1 :: real)\<rparr>)"
proof -
  have r: "create_geographic_chunks (Some [10, 12]) (Some [0, 1]) (3 / 2) =
     Inr [\<lparr>longitude = [10, 12], latitude = (0, 1 / 2)\<rparr>, \<lparr>longitude = [10, 12], latitude = (1 / 2, 1)\<rparr>]"
    by (simp add: create_geographic_chunks_def truthy_def getitem_def true_div_def py_range_def
        upt_rec numeral_eq_Suc)
  have m: "\<lparr>longitude = [10, 12], latitude = (1 / 2, 1)\<rparr> \<in>
       set [\<lparr>longitude = [10, 12], latitude = (0, 1 / 2)\<rparr>, \<lparr>longitude = [10, 12], latitude = (1 / 2, 1 :: real)\<rparr>]"
    by simp
  from create_geographic_chunks_longitude_unchanged [OF r m] r m show ?thesis by simp
qed

text \<open>
  Claim C9. When the latitude or the longitude argument is absent or empty, the first
  statement of \<open>create_geographic_chunks\<close> fails with \<open>AssertionError\<close>; nothing is
  computed and nothing is retried.
\<close>

theorem create_geographic_chunks_requires_ranges:
  "latitude_arg = None \<or> latitude_arg = Some [] \<or> longitude_arg = None \<or> longitude_arg = Some []
   \<Longrightarrow> create_geographic_chunks longitude_arg latitude_arg geographic_chunk_size = Inl AssertionError"
  by (auto simp: create_geographic_chunks_def truthy_def)

text \<open>Claim C9 with the longitude absent, and with the latitude empty.\<close>

theorem create_geographic_chunks_requires_ranges_witness:
  "create_geographic_chunks None (Some [0, 1]) (1 / 2) = Inl AssertionError
   \<and> create_geographic_chunks (Some [10, 20]) (Some []) (1 / 2) = Inl AssertionError"
  using create_geographic_chunks_requires_ranges [of "Some [0, 1]" None "1 / 2"]
    create_geographic_chunks_requires_ranges [of "Some []" "Some [10, 20]" "1 / 2"]
  by simp

section \<open>Combining chunks\<close>

text \<open>
  Claim C7. For one chunk with a time axis, the indexers handed to \<^verbatim>\<open>reindex\<close> are the
  latitudes in descending order, the longitudes in ascending order, and for the time axis
  a tuple holding the ascending list, not the list itself as for the other two axes.
\<close>

theorem combine_geographic_chunks_time_indexer:
  "combine_geographic_chunks combine_first reindex
     [\<lparr>latitude_values = [0, 1], longitude_values = [1, 0], time_values = Some [2, 1], data_vars = d\<rparr>]
   = Inr (reindex
       \<lparr>latitude_values = [0, 1], longitude_values = [1, 0], time_values = Some [2, 1], data_vars = d\<rparr>
       [(''latitude'', FloatList [1, 0]), (''longitude'', FloatList [0, 1]),
        (''time'', Tuple [TimeList [1, 2]])])"
  by (simp add: combine_geographic_chunks_def sorted_py_def)

section \<open>Time chunking\<close>

lemma py_slice_nonneg:
  assumes "0 \<le> a" and "0 \<le> b"
  shows "py_slice xs a b = take (nat b - nat a) (drop (nat a) xs)"
proof (cases "nat a < length xs")
  case True
  have "take (min (length xs) (nat b) - nat a) (drop (nat a) xs) = take (nat b - nat a) (drop (nat a) xs)"
  proof (cases "nat b \<le> length xs")
    case True then show ?thesis by (simp add: min_def)
  next
    case False
    then show ?thesis by (simp add: min_def)
  qed
  with True assms show ?thesis by (simp add: py_slice_def slice_bound_def Let_def min_def)
next
  case False
  with assms show ?thesis by (simp add: py_slice_def slice_bound_def Let_def)
qed

lemma chunks_concat:
  "0 < B \<Longrightarrow> 0 \<le> i \<Longrightarrow>
    concat (map (\<lambda>index. py_slice xs index (index + B)) (range_up i (int (length xs)) B)) = drop (nat i) xs"
proof (induction i "int (length xs)" B rule: range_up.induct)
  case (1 i B)
  show ?case
  proof (cases "0 < B \<and> i < int (length xs)")
    case True
    then have ih: "concat (map (\<lambda>index. py_slice xs index (index + B)) (range_up (i + B) (int (length xs)) B))
        = drop (nat (i + B)) xs"
      using "1.hyps" "1.prems" by simp
    have sl: "py_slice xs i (i + B) = take (nat B) (drop (nat i) xs)"
      using True "1.prems" by (simp add: py_slice_nonneg nat_add_distrib)
    have dd: "drop (nat (i + B)) xs = drop (nat B) (drop (nat i) xs)"
      using True "1.prems" by (simp add: nat_add_distrib add.commute)
    have unf: "range_up i (int (length xs)) B = i # range_up (i + B) (int (length xs)) B"
      using True by (simp add: range_up.simps[of i])
    have "concat (map (\<lambda>index. py_slice xs index (index + B)) (range_up i (int (length xs)) B))
        = take (nat B) (drop (nat i) xs) @ drop (nat B) (drop (nat i) xs)"
      by (simp only: unf list.map concat.simps ih sl dd)
    then show ?thesis by (simp only: append_take_drop_id)
  next
    case False
    then have "int (length xs) \<le> i" using "1.prems" by simp
    with False "1.prems" show ?thesis by (simp add: range_up.simps[of i])
  qed
qed

lemma chunks_full:
  "0 < B \<Longrightarrow> 0 \<le> i \<Longrightarrow> Suc j < length (range_up i (int (length xs)) B) \<Longrightarrow>
    length (py_slice xs (range_up i (int (length xs)) B ! j) (range_up i (int (length xs)) B ! j + B)) = nat B"
proof (induction i "int (length xs)" B arbitrary: j rule: range_up.induct)
  case (1 i B)
  from "1.prems"(3) have c: "0 < B" "i < int (length xs)"
    by (auto simp: range_up.simps[of i] split: if_splits)
  then have unf: "range_up i (int (length xs)) B = i # range_up (i + B) (int (length xs)) B"
    by (simp add: range_up.simps[of i])
  show ?case
  proof (cases j)
    case 0
    with "1.prems"(3) unf have "range_up (i + B) (int (length xs)) B \<noteq> []" by auto
    then have "i + B < int (length xs)" by (auto simp: range_up.simps[of "i + B"] split: if_splits)
    then show ?thesis using 0 c "1.prems"(2) unf by (simp add: py_slice_nonneg)
  next
    case (Suc j')
    with "1.prems"(3) unf have "Suc j' < length (range_up (i + B) (int (length xs)) B)" by simp
    moreover have "0 \<le> i + B" using c "1.prems"(2) by simp
    ultimately show ?thesis using "1.hyps"[of j'] c Suc unf by simp
  qed
qed

lemma chunks_bounds:
  "0 < B \<Longrightarrow> 0 \<le> i \<Longrightarrow> k \<in> set (range_up i (int (length xs)) B) \<Longrightarrow>
    py_slice xs k (k + B) \<noteq> [] \<and> int (length (py_slice xs k (k + B))) \<le> B"
proof (induction i "int (length xs)" B rule: range_up.induct)
  case (1 i B)
  from "1.prems"(3) have c: "0 < B" "i < int (length xs)"
    by (auto simp: range_up.simps[of i] split: if_splits)
  then have unf: "range_up i (int (length xs)) B = i # range_up (i + B) (int (length xs)) B"
    by (simp add: range_up.simps[of i])
  from "1.prems"(3) unf consider "k = i" | "k \<in> set (range_up (i + B) (int (length xs)) B)" by auto
  then show ?case
  proof cases
    case 1
    have "nat i < length xs" using c "1.prems"(2) by simp
    moreover have "int (min (length xs - nat i) (nat B)) \<le> B" using c by simp
    ultimately show ?thesis using 1 c "1.prems"(2) by (simp add: py_slice_nonneg nat_add_distrib)
  next
    case 2
    moreover have "0 \<le> i + B" using c "1.prems"(2) by simp
    ultimately show ?thesis using "1.hyps" c by simp
  qed
qed

text \<open>
  Claim C2. \<open>create_time_chunks\<close> sorts its input, ascending by default and descending
  when \<open>_reversed\<close> is set. Without a batch size it returns the sorted list as one batch.
  With a batch size \<open>B > 0\<close> it returns batches whose concatenation is the sorted list,
  every batch but the last of length exactly \<open>B\<close>, and no batch empty or longer than \<open>B\<close>.
\<close>

theorem create_time_chunks_partition:
  fixes ts :: "'a::linorder list"
  shows "create_time_chunks ts reversed None = Inr [sorted_py ts reversed]
    \<and> mset (sorted_py ts reversed) = mset ts
    \<and> (if reversed then sorted (rev (sorted_py ts reversed)) else sorted (sorted_py ts reversed))
    \<and> (0 < B \<longrightarrow> (\<exists>batches.
          create_time_chunks ts reversed (Some B) = Inr batches
        \<and> concat batches = sorted_py ts reversed
        \<and> (\<forall>j. Suc j < length batches \<longrightarrow> int (length (batches ! j)) = B)
        \<and> (\<forall>b\<in>set batches. b \<noteq> [] \<and> int (length b) \<le> B)))"
proof -
  define ds where "ds = sorted_py ts reversed"
  have a: "create_time_chunks ts reversed None = Inr [ds]"
    by (simp add: create_time_chunks_def ds_def)
  have b: "mset ds = mset ts" by (simp add: ds_def sorted_py_def)
  have c: "if reversed then sorted (rev ds) else sorted ds" by (simp add: ds_def sorted_py_def)
  have d: "\<exists>batches. create_time_chunks ts reversed (Some B) = Inr batches
        \<and> concat batches = ds
        \<and> (\<forall>j. Suc j < length batches \<longrightarrow> int (length (batches ! j)) = B)
        \<and> (\<forall>b\<in>set batches. b \<noteq> [] \<and> int (length b) \<le> B)" if B: "0 < B"
  proof -
    define batches where "batches = map (\<lambda>index. py_slice ds index (index + B)) (range_up 0 (int (length ds)) B)"
    have r: "create_time_chunks ts reversed (Some B) = Inr batches"
      using B by (simp add: create_time_chunks_def chunk_iterable_def py_range3_def batches_def ds_def Let_def)
    have "concat batches = drop (nat 0) ds" unfolding batches_def using B by (intro chunks_concat) simp_all
    then have c1: "concat batches = ds" by simp
    have c2: "\<forall>j. Suc j < length batches \<longrightarrow> int (length (batches ! j)) = B"
      using chunks_full[OF B, of 0 _ ds] B by (simp add: batches_def)
    have c3: "\<forall>b\<in>set batches. b \<noteq> [] \<and> int (length b) \<le> B"
      using chunks_bounds[OF B, of 0 _ ds] by (auto simp: batches_def)
    from r c1 c2 c3 show ?thesis by blast
  qed
  from a b c d show ?thesis unfolding ds_def by blast
qed

text \<open>Claim C2 at three datetimes, descending, in batches of two.\<close>

theorem create_time_chunks_partition_witness:
  "(0::int) < 2 \<and> (\<exists>batches.
      create_time_chunks [(2021,1,1,0,0,0,0), (2020,5,1,0,0,0,0), (2020,3,1,0,0,0,0) :: datetime] True (Some 2) = Inr batches
    \<and> concat batches = [(2021,1,1,0,0,0,0), (2020,5,1,0,0,0,0), (2020,3,1,0,0,0,0)]
    \<and> (\<forall>j. Suc j < length batches \<longrightarrow> int (length (batches ! j)) = 2))"
  using create_time_chunks_partition
    [of "[(2021,1,1,0,0,0,0), (2020,5,1,0,0,0,0), (2020,3,1,0,0,0,0) :: datetime]" True 2]
  by (simp add: sorted_py_def) blast

section \<open>Grouping by year and month\<close>

text \<open>
  The drained items are characterised without the state machine: one item for each adjacent
  run of keys, in order, the \<open>i\<close>-th group object created having identity \<open>i\<close>.
\<close>

lemma groupby_skip_frame:
  "tgtkey (fst (groupby_skip keyfunc g)) = tgtkey g
   \<and> currgrouper (fst (groupby_skip keyfunc g)) = currgrouper g
   \<and> allocated (fst (groupby_skip keyfunc g)) = allocated g"
proof (induction keyfunc g rule: groupby_skip.induct)
  case (1 keyfunc g)
  show ?case
  proof (cases "currkey g \<noteq> None \<and> (tgtkey g = None \<or> tgtkey g \<noteq> currkey g)")
    case True
    then show ?thesis by (simp add: groupby_skip.simps[of keyfunc g])
  next
    case False
    have unf: "groupby_skip keyfunc g =
        (case groupby_step keyfunc g of None \<Rightarrow> (g, False) | Some g1 \<Rightarrow> groupby_skip keyfunc g1)"
      by (subst groupby_skip.simps) (simp only: False if_False)
    show ?thesis
    proof (cases "groupby_step keyfunc g")
      case None
      with unf show ?thesis by simp
    next
      case (Some g1)
      then have "tgtkey g1 = tgtkey g" "currgrouper g1 = currgrouper g" "allocated g1 = allocated g"
        by (auto simp: groupby_step_def split: list.splits)
      with "1.IH"[OF False Some] unf Some show ?thesis by simp
    qed
  qed
qed

lemma groupby_skip_upcoming:
  "(upcoming keyfunc g = [] \<longrightarrow> \<not> snd (groupby_skip keyfunc g))
   \<and> (upcoming keyfunc g \<noteq> [] \<longrightarrow>
        snd (groupby_skip keyfunc g)
      \<and> currkey (fst (groupby_skip keyfunc g)) = Some (hd (upcoming keyfunc g))
      \<and> map keyfunc (it (fst (groupby_skip keyfunc g))) = tl (upcoming keyfunc g))"
proof (induction keyfunc g rule: groupby_skip.induct)
  case (1 keyfunc g)
  show ?case
  proof (cases "currkey g \<noteq> None \<and> (tgtkey g = None \<or> tgtkey g \<noteq> currkey g)")
    case True
    then obtain k where k: "currkey g = Some k" by auto
    with True have "upcoming keyfunc g = k # map keyfunc (it g)"
      by (auto simp: upcoming_def Let_def split: option.splits)
    with True k show ?thesis by (simp add: groupby_skip.simps[of keyfunc g])
  next
    case False
    have unf: "groupby_skip keyfunc g =
        (case groupby_step keyfunc g of None \<Rightarrow> (g, False) | Some g1 \<Rightarrow> groupby_skip keyfunc g1)"
      by (subst groupby_skip.simps) (simp only: False if_False)
    show ?thesis
    proof (cases "it g")
      case Nil
      then have "groupby_step keyfunc g = None" by (simp add: groupby_step_def)
      moreover from Nil False have "upcoming keyfunc g = []"
        by (auto simp: upcoming_def Let_def split: option.splits)
      ultimately show ?thesis using unf by simp
    next
      case (Cons x rest)
      define g1 where "g1 = g\<lparr>it := rest, currkey := Some (keyfunc x), currvalue := Some x\<rparr>"
      have st: "groupby_step keyfunc g = Some g1" using Cons by (simp add: groupby_step_def g1_def)
      have "upcoming keyfunc g1 = upcoming keyfunc g"
        using False Cons by (auto simp: upcoming_def Let_def g1_def split: option.splits)
      with "1.IH"[OF False st] unf st show ?thesis by simp
    qed
  qed
qed

lemma groupby_items_spec:
  "fst (groupby_items keyfunc g) =
     map (\<lambda>(i, k). (k, \<lparr>ident = i, grouper_tgtkey = k\<rparr>))
         (enumerate (allocated g) (remdups_adj (upcoming keyfunc g)))
   \<and> currgrouper (snd (groupby_items keyfunc g)) = None"
proof (induction keyfunc g rule: groupby_items.induct)
  case (1 keyfunc g)
  define g0 where "g0 = g\<lparr>currgrouper := None\<rparr>"
  define s where "s = fst (groupby_skip keyfunc g0)"
  have up0: "upcoming keyfunc g0 = upcoming keyfunc g" by (simp add: upcoming_def Let_def g0_def)
  have fr: "tgtkey s = tgtkey g" "currgrouper s = None" "allocated s = allocated g"
    using groupby_skip_frame[of keyfunc g0] by (simp_all add: s_def g0_def)
  show ?case
  proof (cases "upcoming keyfunc g")
    case Nil
    with groupby_skip_upcoming[of keyfunc g0] up0 have "groupby_skip keyfunc g0 = (s, False)"
      by (simp add: s_def prod_eq_iff)
    then have "groupby_next keyfunc g = (s, None)" by (simp add: groupby_next_def g0_def)
    then have "groupby_items keyfunc g = ([], s)" by (simp add: groupby_items.simps[of keyfunc g])
    with Nil fr show ?thesis by simp
  next
    case (Cons k ks)
    with groupby_skip_upcoming[of keyfunc g0] up0
    have sk: "groupby_skip keyfunc g0 = (s, True)" and ck: "currkey s = Some k"
      and its: "map keyfunc (it s) = ks"
      by (simp_all add: s_def prod_eq_iff)
    define g2 where "g2 = s\<lparr>tgtkey := Some k, currgrouper := Some (allocated s), allocated := Suc (allocated s)\<rparr>"
    define item where "item = (k, \<lparr>ident = allocated s, grouper_tgtkey = k\<rparr>)"
    have nx: "groupby_next keyfunc g = (g2, Some item)"
      using sk ck by (simp add: groupby_next_def g0_def g2_def item_def)
    have unf: "groupby_items keyfunc g =
        (case groupby_items keyfunc g2 of (items, final) \<Rightarrow> (item # items, final))"
      using nx by (simp add: groupby_items.simps[of keyfunc g])
    have up2: "upcoming keyfunc g2 = dropWhile (\<lambda>y. y = k) ks"
      using ck its by (simp add: upcoming_def Let_def g2_def)
    have ih: "fst (groupby_items keyfunc g2) =
        map (\<lambda>(i, k). (k, \<lparr>ident = i, grouper_tgtkey = k\<rparr>))
            (enumerate (Suc (allocated g)) (remdups_adj (dropWhile (\<lambda>y. y = k) ks)))
      \<and> currgrouper (snd (groupby_items keyfunc g2)) = None"
      using "1.IH"[OF nx[symmetric] refl] up2 fr by (simp add: g2_def)
    have "remdups_adj (upcoming keyfunc g) = k # remdups_adj (dropWhile (\<lambda>y. y = k) ks)"
      using Cons by (simp add: remdups_adj_Cons')
    with ih unf fr show ?thesis by (simp add: item_def split: prod.splits)
  qed
qed

lemma dict_setitem_keys:
  "fst ` set (dict_setitem k v d) = insert k (fst ` set d)"
  by (induction d) auto

lemma dict_setitem_distinct:
  "distinct (map fst d) \<Longrightarrow> distinct (map fst (dict_setitem k v d))"
proof (induction d)
  case Nil
  show ?case by simp
next
  case (Cons e d)
  show ?case
  proof (cases "fst e = k")
    case True
    with Cons.prems show ?thesis by simp
  next
    case False
    from Cons.prems have "fst e \<notin> fst ` set d" "distinct (map fst d)" by simp_all
    with False have "fst e \<notin> fst ` set (dict_setitem k v d)" "distinct (map fst (dict_setitem k v d))"
      using Cons.IH by (simp_all add: dict_setitem_keys)
    with False show ?thesis by simp
  qed
qed

lemma dict_setitem_map_of:
  "map_of (dict_setitem k v d) = (map_of d)(k \<mapsto> v)"
  by (induction d) auto

lemma dict_fold:
  "distinct (map fst d) \<Longrightarrow>
     distinct (map fst (foldl (\<lambda>d (k, v). dict_setitem k v d) d items))
   \<and> fst ` set (foldl (\<lambda>d (k, v). dict_setitem k v d) d items) = fst ` set d \<union> fst ` set items
   \<and> map_of (foldl (\<lambda>d (k, v). dict_setitem k v d) d items) = map_of d ++ map_of (rev items)"
proof (induction items arbitrary: d)
  case Nil
  then show ?case by simp
next
  case (Cons a items)
  obtain k v where a: "a = (k, v)" by (cases a)
  let ?d = "dict_setitem k v d"
  let ?r = "foldl (\<lambda>d (k, v). dict_setitem k v d) ?d items"
  have "distinct (map fst ?d)" using Cons.prems by (rule dict_setitem_distinct)
  from Cons.IH[OF this] have ih: "distinct (map fst ?r)"
    "fst ` set ?r = fst ` set ?d \<union> fst ` set items"
    "map_of ?r = map_of ?d ++ map_of (rev items)" by blast+
  have unf: "foldl (\<lambda>d (k, v). dict_setitem k v d) d (a # items) = ?r" by (simp add: a)
  have k: "fst ` set ?r = fst ` set d \<union> fst ` set (a # items)"
    unfolding ih(2) dict_setitem_keys by (auto simp: a)
  have "map_of ?r = (map_of d)(k \<mapsto> v) ++ map_of (rev items)"
    unfolding ih(3) dict_setitem_map_of ..
  also have "\<dots> = map_of d ++ map_of (rev (a # items))"
    by (simp add: a map_add_upd_left fun_eq_iff map_add_def split: option.splits)
  finally show ?case unfolding unf using ih(1) k by simp
qed

lemma map_of_rev_last:
  "map_of (rev xs) k = Some v \<Longrightarrow>
     \<exists>i<length xs. xs ! i = (k, v) \<and> (\<forall>j<length xs. i < j \<longrightarrow> fst (xs ! j) \<noteq> k)"
proof (induction xs rule: rev_induct)
  case Nil
  then show ?case by simp
next
  case (snoc x xs)
  show ?case
  proof (cases "fst x = k")
    case True
    with snoc.prems have "x = (k, v)" by (cases x) auto
    then have "(xs @ [x]) ! length xs = (k, v) \<and> (\<forall>j<length (xs @ [x]). length xs < j \<longrightarrow> fst ((xs @ [x]) ! j) \<noteq> k)"
      by simp
    then show ?thesis by (intro exI[of _ "length xs"]) simp
  next
    case False
    with snoc.prems have "map_of (rev xs) k = Some v" by (cases x) auto
    from snoc.IH[OF this] obtain i where i: "i < length xs" "xs ! i = (k, v)"
      "\<forall>j<length xs. i < j \<longrightarrow> fst (xs ! j) \<noteq> k" by blast
    have "\<forall>j<length (xs @ [x]). i < j \<longrightarrow> fst ((xs @ [x]) ! j) \<noteq> k"
    proof (intro allI impI)
      fix j assume "j < length (xs @ [x])" "i < j"
      then show "fst ((xs @ [x]) ! j) \<noteq> k"
        using i(3) False by (cases "j < length xs") (auto simp: nth_append)
    qed
    with i show ?thesis by (intro exI[of _ i]) (simp add: nth_append)
  qed
qed

lemma dict_groupby_entries:
  fixes keyfunc :: "'a \<Rightarrow> 'k" and xs :: "'a list"
  shows "entries (dict_groupby keyfunc xs) =
    dict_py (map (\<lambda>(i, k). (k, \<lparr>ident = i, grouper_tgtkey = k\<rparr>)) (enumerate 0 (run_keys keyfunc xs)))"
proof -
  have "upcoming keyfunc (groupby_new xs :: ('a, 'k) groupby) = map keyfunc xs"
    by (simp add: upcoming_def Let_def groupby_new_def)
  then have "fst (groupby_items keyfunc (groupby_new xs :: ('a, 'k) groupby)) =
      map (\<lambda>(i, k). (k, \<lparr>ident = i, grouper_tgtkey = k\<rparr>)) (enumerate 0 (run_keys keyfunc xs))"
    using groupby_items_spec[of keyfunc "groupby_new xs :: ('a, 'k) groupby"]
    by (simp add: run_keys_def groupby_new_def)
  then show ?thesis by (simp add: dict_groupby_def case_prod_unfold)
qed

lemma dict_groupby_parent:
  fixes keyfunc :: "'a \<Rightarrow> 'k" and xs :: "'a list"
  shows "currgrouper (parent (dict_groupby keyfunc xs)) = None"
  using groupby_items_spec[of keyfunc "groupby_new xs :: ('a, 'k) groupby"]
  by (simp add: dict_groupby_def case_prod_unfold)

lemma dict_groupby_spec:
  fixes keyfunc :: "'a \<Rightarrow> 'k" and xs :: "'a list"
  defines "r \<equiv> dict_groupby keyfunc xs"
  shows "distinct (map fst (entries r))"
    and "set (map fst (entries r)) = keyfunc ` set xs"
    and "\<forall>(k, g)\<in>set (entries r). grouper_tgtkey g = k \<and> last_run keyfunc xs k (ident g)"
proof -
  define items where
    "items = map (\<lambda>(i, k). (k, \<lparr>ident = i, grouper_tgtkey = k\<rparr>)) (enumerate 0 (run_keys keyfunc xs))"
  have e: "entries r = dict_py items"
    by (simp add: r_def items_def dict_groupby_entries)
  have keys: "map fst items = run_keys keyfunc xs"
    by (simp add: items_def comp_def case_prod_unfold map_snd_enumerate)
  have df: "distinct (map fst (entries r))"
      "fst ` set (entries r) = fst ` set items"
      "map_of (entries r) = map_of (rev items)"
    using dict_fold[of "[]" items] by (simp_all add: e dict_py_def)
  show "distinct (map fst (entries r))" by (rule df)
  have "fst ` set items = set (run_keys keyfunc xs)" using keys by (metis set_map)
  then show "set (map fst (entries r)) = keyfunc ` set xs"
    using df(2) by (simp add: run_keys_def)
  show "\<forall>(k, g)\<in>set (entries r). grouper_tgtkey g = k \<and> last_run keyfunc xs k (ident g)"
  proof (clarify)
    fix k g assume "(k, g) \<in> set (entries r)"
    with df(1) have "map_of (entries r) k = Some g" by simp
    then have "map_of (rev items) k = Some g" by (simp add: df(3))
    from map_of_rev_last[OF this] obtain i where i: "i < length items" "items ! i = (k, g)"
      "\<forall>j<length items. i < j \<longrightarrow> fst (items ! j) \<noteq> k" by blast
    have len: "length items = length (run_keys keyfunc xs)" using keys by (metis length_map)
    have nth: "items ! j = (run_keys keyfunc xs ! j, \<lparr>ident = j, grouper_tgtkey = run_keys keyfunc xs ! j\<rparr>)"
      if "j < length (run_keys keyfunc xs)" for j
      using that by (simp add: items_def nth_enumerate_eq)
    from i(1,2) nth[of i] len have g: "k = run_keys keyfunc xs ! i" "ident g = i" "grouper_tgtkey g = k"
      by auto
    have "\<forall>j<length (run_keys keyfunc xs). i < j \<longrightarrow> run_keys keyfunc xs ! j \<noteq> k"
      using i(3) nth len by auto
    with g i(1) len show "grouper_tgtkey g = k \<and> last_run keyfunc xs k (ident g)"
      by (simp add: last_run_def)
  qed
qed

text \<open>
  When the dictionary is complete the groupby object has been run to its end, so every
  group object in the dictionary is exhausted: reading it yields nothing.
\<close>

lemma groups_exhausted:
  "(k, g) \<in> set (entries (dict_groupby keyfunc xs)) \<Longrightarrow>
     grouper_next keyfunc g (parent (dict_groupby keyfunc xs)) = (parent (dict_groupby keyfunc xs), None)"
  by (simp add: grouper_next_def dict_groupby_parent)

text \<open>
  Claim C5. The result of \<open>group_datetimes_by_month\<close> does not depend on the inclusion
  list: the filtered sequence is bound to a name and never used, and the unfiltered list is
  grouped.
\<close>

theorem group_datetimes_by_month_ignores_months:
  "group_datetimes_by_month datetime_list months1 = group_datetimes_by_month datetime_list months2"
  by (simp add: group_datetimes_by_month_def)

text \<open>
  Claim C5 at two datetimes of March and April: with the inclusion list \<open>[3]\<close> the result
  is the one for all twelve months, and April is among its keys.
\<close>

theorem group_datetimes_by_month_ignores_months_witness:
  "group_datetimes_by_month [(2020, 3, 1, 0, 0, 0, 0), (2020, 4, 1, 0, 0, 0, 0)] [3]
     = group_datetimes_by_month [(2020, 3, 1, 0, 0, 0, 0), (2020, 4, 1, 0, 0, 0, 0)]
         [1, 2, 3, 4, 5, 6, 7, 8, 9, 10, 11, 12]
   \<and> map fst (entries (group_datetimes_by_month
         [(2020, 3, 1, 0, 0, 0, 0), (2020, 4, 1, 0, 0, 0, 0)] [3])) = [3, 4]"
  using group_datetimes_by_month_ignores_months
    [of "[(2020, 3, 1, 0, 0, 0, 0), (2020, 4, 1, 0, 0, 0, 0)]" "[3]"
        "[1, 2, 3, 4, 5, 6, 7, 8, 9, 10, 11, 12]"]
  by (simp add: group_datetimes_by_month_def run_keys_def dict_groupby_entries dict_py_def month_def)

text \<open>
  Claim C6, as the code has it. The dictionary returned by \<open>group_datetimes_by_year\<close> and
  \<open>group_datetimes_by_month\<close> has exactly one entry for each year (month) of the list.
  Runs of a key are not merged and not kept apart: the entry of a key holds the group
  object created for the last adjacent run of that key.
\<close>

theorem group_datetimes_one_entry_per_key:
  "distinct (map fst (entries (group_datetimes_by_year datetime_list)))
   \<and> set (map fst (entries (group_datetimes_by_year datetime_list))) = year ` set datetime_list
   \<and> (\<forall>(k, g)\<in>set (entries (group_datetimes_by_year datetime_list)).
         last_run year datetime_list k (ident g))
   \<and> distinct (map fst (entries (group_datetimes_by_month datetime_list months)))
   \<and> set (map fst (entries (group_datetimes_by_month datetime_list months))) = month ` set datetime_list
   \<and> (\<forall>(k, g)\<in>set (entries (group_datetimes_by_month datetime_list months)).
         last_run month datetime_list k (ident g))"
proof -
  have y: "\<forall>(k, g)\<in>set (entries (dict_groupby year datetime_list)). last_run year datetime_list k (ident g)"
    using dict_groupby_spec(3)[of year datetime_list] by blast
  have m: "\<forall>(k, g)\<in>set (entries (dict_groupby month datetime_list)). last_run month datetime_list k (ident g)"
    using dict_groupby_spec(3)[of month datetime_list] by blast
  show ?thesis
    unfolding group_datetimes_by_year_def group_datetimes_by_month_def Let_def
    using y m dict_groupby_spec(1,2)[of year datetime_list] dict_groupby_spec(1,2)[of month datetime_list]
    by blast
qed

text \<open>
  Claim C6 as stated fails: 2020 occurs in two non-adjacent runs of the first list and
  March in two non-adjacent runs of the second, and each has a single entry.
\<close>

theorem group_datetimes_separate_runs_counterexample:
  "run_keys year [(2020, 1, 1, 0, 0, 0, 0), (2021, 1, 1, 0, 0, 0, 0), (2020, 6, 1, 0, 0, 0, 0)]
     = [2020, 2021, 2020]
   \<and> map fst (entries (group_datetimes_by_year
        [(2020, 1, 1, 0, 0, 0, 0), (2021, 1, 1, 0, 0, 0, 0), (2020, 6, 1, 0, 0, 0, 0)]))
     = [2020, 2021]
   \<and> \<not> separate_group_per_run year
        [(2020, 1, 1, 0, 0, 0, 0), (2021, 1, 1, 0, 0, 0, 0), (2020, 6, 1, 0, 0, 0, 0)]
        (group_datetimes_by_year
          [(2020, 1, 1, 0, 0, 0, 0), (2021, 1, 1, 0, 0, 0, 0), (2020, 6, 1, 0, 0, 0, 0)])
   \<and> run_keys month [(2020, 3, 1, 0, 0, 0, 0), (2020, 4, 1, 0, 0, 0, 0), (2021, 3, 1, 0, 0, 0, 0)]
     = [3, 4, 3]
   \<and> map fst (entries (group_datetimes_by_month
        [(2020, 3, 1, 0, 0, 0, 0), (2020, 4, 1, 0, 0, 0, 0), (2021, 3, 1, 0, 0, 0, 0)]
        [1, 2, 3, 4, 5, 6, 7, 8, 9, 10, 11, 12]))
     = [3, 4]
   \<and> \<not> separate_group_per_run month
        [(2020, 3, 1, 0, 0, 0, 0), (2020, 4, 1, 0, 0, 0, 0), (2021, 3, 1, 0, 0, 0, 0)]
        (group_datetimes_by_month
          [(2020, 3, 1, 0, 0, 0, 0), (2020, 4, 1, 0, 0, 0, 0), (2021, 3, 1, 0, 0, 0, 0)]
          [1, 2, 3, 4, 5, 6, 7, 8, 9, 10, 11, 12])"
  by (simp add: separate_group_per_run_def run_keys_def group_datetimes_by_year_def
      group_datetimes_by_month_def dict_groupby_entries dict_py_def year_def month_def)

text \<open>Claim C6, as the code has it, at the first of these lists.\<close>

theorem group_datetimes_one_entry_per_key_witness:
  "entries (group_datetimes_by_year
      [(2020, 1, 1, 0, 0, 0, 0), (2021, 1, 1, 0, 0, 0, 0), (2020, 6, 1, 0, 0, 0, 0)])
     = [(2020, \<lparr>ident = 2, grouper_tgtkey = 2020\<rparr>), (2021, \<lparr>ident = 1, grouper_tgtkey = 2021\<rparr>)]
   \<and> last_run year [(2020, 1, 1, 0, 0, 0, 0), (2021, 1, 1, 0, 0, 0, 0), (2020, 6, 1, 0, 0, 0, 0)] 2020 2
   \<and> last_run year [(2020, 1, 1, 0, 0, 0, 0), (2021, 1, 1, 0, 0, 0, 0), (2020, 6, 1, 0, 0, 0, 0)] 2021 1"
proof -
  have e: "entries (group_datetimes_by_year
      [(2020, 1, 1, 0, 0, 0, 0), (2021, 1, 1, 0, 0, 0, 0), (2020, 6, 1, 0, 0, 0, 0)])
     = [(2020, \<lparr>ident = 2, grouper_tgtkey = 2020\<rparr>), (2021, \<lparr>ident = 1, grouper_tgtkey = 2021\<rparr>)]"
    by (simp add: group_datetimes_by_year_def run_keys_def dict_groupby_entries dict_py_def year_def)
  from group_datetimes_one_entry_per_key
    [of "[(2020, 1, 1, 0, 0, 0, 0), (2021, 1, 1, 0, 0, 0, 0), (2020, 6, 1, 0, 0, 0, 0)]"]
  show ?thesis unfolding e by simp
qed

section \<open>Sliding baseline\<close>

lemma full_length_offsets_eq:
  assumes "0 \<le> W" and "W \<le> int (length xs)"
  shows "full_length_offsets xs W = [0..<Suc (length xs - nat W)]"
proof -
  have p: "(int (length (py_slice xs (int i) (int i + W))) = W) = (i < Suc (length xs - nat W))"
    if "i < Suc (length xs)" for i
    using that assms by (auto simp: py_slice_nonneg nat_add_distrib min_def)
  have "filter (\<lambda>i. int (length (py_slice xs (int i) (int i + W))) = W) [0..<Suc (length xs)]
      = filter (\<lambda>i. i < Suc (length xs - nat W)) [0..<Suc (length xs)]"
    by (rule filter_cong) (auto simp: p)
  also have "\<dots> = [0..<Suc (length xs - nat W)]"
  proof -
    have s: "[0..<Suc (length xs)] = [0..<Suc (length xs - nat W)] @ [Suc (length xs - nat W)..<Suc (length xs)]"
      using upt_add_eq_append[of 0 "Suc (length xs - nat W)" "nat W"] assms by simp
    show ?thesis by (subst s) (auto simp: filter_empty_conv)
  qed
  finally show ?thesis by (simp add: full_length_offsets_def)
qed

text \<open>
  Claim C4, as the code has it. For a window length \<open>W \<ge> 0\<close> and an input of length
  \<open>L > W\<close>, \<open>_generate_baseline\<close> returns one list of exactly \<open>L - W - 1\<close> windows; window
  \<open>i\<close> starts at offset \<open>i\<close>, which is an offset of a full-length window, and has length
  exactly \<open>W\<close>. There are \<open>L - W + 1\<close> offsets of full-length windows, so the code returns
  two fewer than the maximum. For five elements and \<open>W = 2\<close> these are the windows at
  offsets 0 and 1.
\<close>

theorem generate_baseline_windows:
  "(0 \<le> W \<and> W < int (length xs) \<longrightarrow> (\<exists>windows.
       generate_baseline xs W = Windows [windows]
     \<and> int (length windows) = int (length xs) - W - 1
     \<and> (\<forall>i<length windows. windows ! i = take (nat W) (drop i xs) \<and> int (length (windows ! i)) = W)
     \<and> (\<forall>i<length windows. i \<in> set (full_length_offsets xs W))
     \<and> int (length (full_length_offsets xs W)) = int (length xs) - W + 1
     \<and> int (length windows) = int (length (full_length_offsets xs W)) - 2))
   \<and> generate_baseline [x0, x1, x2, x3, x4] 2 = Windows [[[x0, x1], [x1, x2]]]"
proof (intro conjI impI)
  assume h: "0 \<le> W \<and> W < int (length xs)"
  define windows where "windows = map (\<lambda>window. py_slice xs window (window + W)) (py_range (int (length xs) - W - 1))"
  have r: "generate_baseline xs W = Windows [windows]"
    using h by (simp add: generate_baseline_def windows_def)
  have l: "int (length windows) = int (length xs) - W - 1"
    using h by (simp add: windows_def py_range_def)
  have n: "windows ! i = take (nat W) (drop i xs) \<and> int (length (windows ! i)) = W" if "i < length windows" for i
  proof -
    from that have i: "i < nat (int (length xs) - W - 1)" by (simp add: windows_def py_range_def)
    then have "windows ! i = py_slice xs (int i) (int i + W)" by (simp add: windows_def py_range_def)
    also have "\<dots> = take (nat W) (drop i xs)" using h by (simp add: py_slice_nonneg nat_add_distrib)
    finally have e: "windows ! i = take (nat W) (drop i xs)" .
    moreover have "int (length (take (nat W) (drop i xs))) = W" using i h by simp
    ultimately show ?thesis by simp
  qed
  have f: "full_length_offsets xs W = [0..<Suc (length xs - nat W)]"
    using h by (intro full_length_offsets_eq) simp_all
  have v: "\<forall>i<length windows. i \<in> set (full_length_offsets xs W)"
    using l h unfolding f by auto
  have m: "int (length (full_length_offsets xs W)) = int (length xs) - W + 1"
  proof -
    from h have "nat W \<le> length xs" by linarith
    then have "int (length xs - nat W) = int (length xs) - int (nat W)" by linarith
    with h show ?thesis unfolding f by simp
  qed
  have t: "int (length windows) = int (length (full_length_offsets xs W)) - 2"
    using l m by simp
  from r l n v m t show "\<exists>windows. generate_baseline xs W = Windows [windows]
     \<and> int (length windows) = int (length xs) - W - 1
     \<and> (\<forall>i<length windows. windows ! i = take (nat W) (drop i xs) \<and> int (length (windows ! i)) = W)
     \<and> (\<forall>i<length windows. i \<in> set (full_length_offsets xs W))
     \<and> int (length (full_length_offsets xs W)) = int (length xs) - W + 1
     \<and> int (length windows) = int (length (full_length_offsets xs W)) - 2"
    by blast
next
  show "generate_baseline [x0, x1, x2, x3, x4] 2 = Windows [[[x0, x1], [x1, x2]]]"
    by (simp add: generate_baseline_def py_range_def py_slice_def slice_bound_def upt_rec)
qed

text \<open>
  Claim C4 as stated fails: five elements have four full-length windows of length 2, at
  offsets 0 to 3, and the code returns two of them, not three.
\<close>

theorem generate_baseline_one_fewer_counterexample:
  "full_length_offsets [10, 20, 30, 40, 50 :: int] 2 = [0, 1, 2, 3]
   \<and> generate_baseline [10, 20, 30, 40, 50 :: int] 2 = Windows [[[10, 20], [20, 30]]]
   \<and> \<not> one_fewer_than_maximum [10, 20, 30, 40, 50 :: int] 2
         (generate_baseline [10, 20, 30, 40, 50 :: int] 2)"
  by (simp add: one_fewer_than_maximum_def full_length_offsets_def generate_baseline_def
      py_range_def py_slice_def slice_bound_def upt_rec)

text \<open>Claim C4, as the code has it, at five integers and \<open>W = 2\<close>.\<close>

theorem generate_baseline_windows_witness:
  "(0::int) \<le> 2 \<and> 2 < int (length [10, 20, 30, 40, 50 :: int]) \<and> (\<exists>windows.
       generate_baseline [10, 20, 30, 40, 50 :: int] 2 = Windows [windows]
     \<and> int (length windows) = 2
     \<and> (\<forall>i<length windows. int (length (windows ! i)) = 2)
     \<and> int (length (full_length_offsets [10, 20, 30, 40, 50 :: int] 2)) = 4)"
  using generate_baseline_windows [of 2 "[10, 20, 30, 40, 50 :: int]" 10 20 30 40 50]
  by simp blast

text \<open>
  Claim C10. An input no longer than the window length is returned as it is, not wrapped
  as a window set.
\<close>

theorem generate_baseline_short:
  "int (length xs) \<le> W \<Longrightarrow> generate_baseline xs W = Unchanged xs"
  by (simp add: generate_baseline_def)

text \<open>Claim C10 at two integers and \<open>W = 2\<close>.\<close>

theorem generate_baseline_short_witness:
  "int (length [10, 20 :: int]) \<le> 2 \<and> generate_baseline [10, 20 :: int] 2 = Unchanged [10, 20]"
  using generate_baseline_short [of "[10, 20 :: int]" 2]
  by simp

end
